theory Spec2Isabelle
  imports Complex_Main "HOL-Library.Product_Lexorder" "HOL-Library.Multiset"
begin

section \<open>KnowledgeScout: the question-answering route of app.py\<close>

text \<open>
  The development embeds \<^verbatim>\<open>ask_question\<close> of \<^verbatim>\<open>src/app.py\<close> (lines 182-248): the two
  guards, the sentence segmentation, the ranking of the similarity scores, the confidence
  threshold, the collection of the matched sentences and the final answer string.

  Two library calls of the route are not code of the repository. The tf-idf vectorizer and
  the cosine similarity of scikit-learn (lines 205-220) are a parameter of the model: a
  function from the sentences and the question to either an exception or the array of
  scores. \<^verbatim>\<open>numpy.argsort\<close> is an ascending sort of the indices whose order among equal
  values numpy leaves open; that order is the second parameter of the model.
\<close>

subsection \<open>Python strings\<close>

text \<open>
  A Python \<^verbatim>\<open>str\<close> is a sequence of Unicode code points; \<^verbatim>\<open>len\<close> and slicing count code
  points. A character is its code point, a string a list of them.
\<close>

type_synonym pychar = nat
type_synonym pystr = "pychar list"

definition ustr :: "string \<Rightarrow> pystr" where
  "ustr s = map of_char s"

text \<open>
  \<^verbatim>\<open>str.strip()\<close> without argument and the class \<^verbatim>\<open>\s\<close> of a \<^verbatim>\<open>str\<close> pattern use the same
  test, CPython's \<^verbatim>\<open>Py_UNICODE_ISSPACE\<close>: the code points below.
\<close>

definition is_space :: "pychar \<Rightarrow> bool" where
  "is_space c \<longleftrightarrow>
     (9 \<le> c \<and> c \<le> 13) \<or> (28 \<le> c \<and> c \<le> 32) \<or> c = 133 \<or> c = 160 \<or> c = 5760 \<or>
     (8192 \<le> c \<and> c \<le> 8202) \<or> c = 8232 \<or> c = 8233 \<or> c = 8239 \<or> c = 8287 \<or> c = 12288"

definition LF :: pychar where "LF = 10"
definition CR :: pychar where "CR = 13"
definition SP :: pychar where "SP = 32"

text \<open>\<^verbatim>\<open>s.strip()\<close>: leading and trailing whitespace removed.\<close>

definition strip :: "pystr \<Rightarrow> pystr" where
  "strip s = rev (dropWhile is_space (rev (dropWhile is_space s)))"

text \<open>\<^verbatim>\<open>s.replace("\r\n", "\n")\<close>: every occurrence, scanning from the left.\<close>

fun replace_crlf :: "pystr \<Rightarrow> pystr" where
  "replace_crlf (c # d # cs) =
     (if c = CR \<and> d = LF then LF # replace_crlf cs else c # replace_crlf (d # cs))"
| "replace_crlf cs = cs"

text \<open>\<^verbatim>\<open>s.replace("\r", "\n")\<close>.\<close>

definition replace_cr :: "pystr \<Rightarrow> pystr" where
  "replace_cr s = map (\<lambda>c. if c = CR then LF else c) s"

text \<open>\<^verbatim>\<open>' '.join(xs)\<close>.\<close>

fun join_space :: "pystr list \<Rightarrow> pystr" where
  "join_space [] = []"
| "join_space [x] = x"
| "join_space (x # y # ys) = x @ SP # join_space (y # ys)"

subsection \<open>The two regular expressions\<close>

text \<open>The class \<^verbatim>\<open>[\.!?]\<close> of the lookbehind, on the character before the position
  (there is none at the start of the string).\<close>

definition is_terminal :: "pychar option \<Rightarrow> bool" where
  "is_terminal prev \<longleftrightarrow> prev = Some 46 \<or> prev = Some 33 \<or> prev = Some 63"

text \<open>
  \<^verbatim>\<open>re.split(r'(?<=[\.!?])\s+|\n+', raw)\<close>. The scan goes from left to right; \<open>prev\<close> is the
  character before the position and \<open>piece\<close> the text since the last separator. At each
  position the first alternative is tried first: after a terminal mark, a maximal run of
  whitespace; otherwise the second: a maximal run of line feeds. Neither alternative
  matches the empty string, and the pattern has no group, so the result is the list of the
  pieces between the separators.
\<close>

function re_split_from :: "pychar option \<Rightarrow> pystr \<Rightarrow> pystr \<Rightarrow> pystr list" where
  "re_split_from prev piece [] = [piece]"
| "re_split_from prev piece (c # cs) =
     (if is_terminal prev \<and> is_space c then
        piece # re_split_from (Some (last (c # takeWhile is_space cs))) [] (dropWhile is_space cs)
      else if c = LF then
        piece # re_split_from (Some LF) [] (dropWhile (\<lambda>x. x = LF) cs)
      else re_split_from (Some c) (piece @ [c]) cs)"
  by pat_completeness auto
termination
  by (relation "measure (\<lambda>(prev, piece, s). length s)")
     (auto simp: length_dropWhile_le less_Suc_eq_le)

definition re_split :: "pystr \<Rightarrow> pystr list" where
  "re_split raw = re_split_from None [] raw"

text \<open>\<^verbatim>\<open>re.sub('\s+', ' ', p)\<close>: every maximal run of whitespace becomes one space.\<close>

function re_sub_ws :: "pystr \<Rightarrow> pystr" where
  "re_sub_ws [] = []"
| "re_sub_ws (c # cs) =
     (if is_space c then SP # re_sub_ws (dropWhile is_space cs) else c # re_sub_ws cs)"
  by pat_completeness auto
termination
  by (relation "measure length") (auto simp: length_dropWhile_le less_Suc_eq_le)

subsection \<open>Segmentation (lines 194-200)\<close>

definition normalize_newlines :: "pystr \<Rightarrow> pystr" where
  "normalize_newlines doc_text = replace_cr (replace_crlf doc_text)"

text \<open>The list comprehension of line 197, before the fallback.\<close>

definition split_sentences :: "pystr \<Rightarrow> pystr list" where
  "split_sentences raw =
     map (\<lambda>p. strip (re_sub_ws p)) (filter (\<lambda>p. p \<noteq> [] \<and> strip p \<noteq> []) (re_split raw))"

definition segment :: "pystr \<Rightarrow> pystr list" where
  "segment doc_text =
     (let raw = normalize_newlines doc_text;
          sentences = split_sentences raw
      in if sentences = [] then [take 2000 raw] else sentences)"

subsection \<open>Ranking and answer (lines 202-248)\<close>

text \<open>An exception caught by \<^verbatim>\<open>except Exception as e\<close>, with the text of \<^verbatim>\<open>str(e)\<close>.\<close>

datatype exn = PyException pystr

fun str_of :: "exn \<Rightarrow> pystr" where
  "str_of (PyException msg) = msg"

definition IndexError :: exn where
  "IndexError = PyException (ustr ''list index out of range'')"

text \<open>
  The outcome of lines 205-220 (lazy import, lower-casing, \<^verbatim>\<open>fit_transform\<close>,
  \<^verbatim>\<open>cosine_similarity\<close>, \<^verbatim>\<open>flatten\<close>) on the sentences and the question: an exception, or
  the similarity of every sentence to the question. The scores are finite floating-point
  numbers; only their order and their comparison with the threshold are used, so they are
  read as the reals they denote.
\<close>

type_synonym scorer = "pystr list \<Rightarrow> pystr \<Rightarrow> exn + real list"

definition top_k :: nat where
  "top_k = 3"

text \<open>
  \<^verbatim>\<open>score_threshold = 0.20\<close>. The double nearest to one fifth lies just above it, and
  the double before that one lies below one fifth, so a double is below the threshold of
  the code exactly when the real it denotes is below one fifth.
\<close>

definition score_threshold :: real where
  "score_threshold = 0.20"

text \<open>
  \<^verbatim>\<open>a.argsort()\<close>: the indices of \<open>a\<close> by ascending value. The default kind of numpy (an
  introsort, on some processors a vectorised sort) promises no order among equal values,
  and the order it leaves them in differs between builds. The model takes that order as a
  parameter: \<open>tie a i\<close> ranks the index \<open>i\<close> among the indices of \<open>a\<close> with the same value.
  Every choice of \<open>tie\<close> gives an ascending permutation of the indices, and every ascending
  permutation of the indices is given by some \<open>tie\<close> (\<open>argsort_complete\<close> below).
\<close>

type_synonym tie_order = "real list \<Rightarrow> nat \<Rightarrow> nat"

definition argsort :: "tie_order \<Rightarrow> real list \<Rightarrow> nat list" where
  "argsort tie a = sort_key (\<lambda>i. (a ! i, tie a i)) [0..<length a]"

text \<open>Equal values left in index order, as an insertion sort leaves them.\<close>

definition index_order :: tie_order where
  "index_order a i = i"

text \<open>Equal values left in reverse index order.\<close>

definition reverse_index_order :: tie_order where
  "reverse_index_order a i = length a - i"

text \<open>What numpy documents of the result: the indices of the array, each once, by ascending value.\<close>

definition is_argsort :: "real list \<Rightarrow> nat list \<Rightarrow> bool" where
  "is_argsort a p \<longleftrightarrow>
     distinct p \<and> set p = {0..<length a} \<and> sorted (map (\<lambda>i. a ! i) p)"

text \<open>\<^verbatim>\<open>similarities.argsort()[::-1][:top_k]\<close> and \<^verbatim>\<open>similarities[ranked_idx]\<close>.\<close>

definition ranked_idx :: "tie_order \<Rightarrow> real list \<Rightarrow> nat list" where
  "ranked_idx tie similarities = take top_k (rev (argsort tie similarities))"

definition top_scores :: "tie_order \<Rightarrow> real list \<Rightarrow> real list" where
  "top_scores tie similarities =
     map (\<lambda>i. similarities ! i) (ranked_idx tie similarities)"

text \<open>
  The loop of lines 233-241 over \<^verbatim>\<open>zip(ranked_idx, top_scores)\<close>, with its two variables
  \<^verbatim>\<open>matched\<close> and \<^verbatim>\<open>used\<close>. \<^verbatim>\<open>sentences[int(idx)]\<close> raises \<^verbatim>\<open>IndexError\<close> out of range.
\<close>

fun collect_matches ::
  "pystr list \<Rightarrow> (nat \<times> real) list \<Rightarrow> pystr list \<Rightarrow> pystr set \<Rightarrow> exn + pystr list" where
  "collect_matches sentences [] matched used = Inr matched"
| "collect_matches sentences ((idx, score) # rest) matched used =
     (if score < score_threshold then collect_matches sentences rest matched used
      else if length sentences \<le> idx then Inl IndexError
      else
        (let text = strip (sentences ! idx)
         in if text \<noteq> [] \<and> text \<notin> used
            then collect_matches sentences rest (matched @ [text]) (insert text used)
            else collect_matches sentences rest matched used))"

text \<open>
  The result of the route, one constructor for each way it returns. Every one of them is
  sent as \<^verbatim>\<open>jsonify({"answer": ...}), 200\<close>; \<open>answer_of\<close> is the string of the field.
\<close>

datatype result =
    EmptyQuestion
  | NoDocument
  | NoConfidentMatch
  | Answered pystr
  | ComputationFailure exn

definition answer_of :: "result \<Rightarrow> pystr" where
  "answer_of r =
     (case r of
        EmptyQuestion \<Rightarrow> ustr ''Ask a non-empty question''
      | NoDocument \<Rightarrow> ustr ''No document uploaded yet. Please upload first.''
      | NoConfidentMatch \<Rightarrow>
          ustr ''I couldn't find a confident answer in the uploaded document.''
      | Answered answer \<Rightarrow> answer
      | ComputationFailure e \<Rightarrow> ustr ''Could not compute answer: '' @ str_of e)"

text \<open>The body of the \<^verbatim>\<open>try\<close> block: \<open>Inl e\<close> when it raises \<open>e\<close>.\<close>

definition try_body :: "tie_order \<Rightarrow> scorer \<Rightarrow> pystr list \<Rightarrow> pystr \<Rightarrow> exn + result" where
  "try_body tie score sentences question =
     (case score sentences question of
        Inl e \<Rightarrow> Inl e
      | Inr similarities \<Rightarrow>
          if top_scores tie similarities = []
             \<or> hd (top_scores tie similarities) < score_threshold
          then Inr NoConfidentMatch
          else
            (case collect_matches sentences
                    (zip (ranked_idx tie similarities) (top_scores tie similarities)) [] {} of
               Inl e \<Rightarrow> Inl e
             | Inr matched \<Rightarrow>
                 if matched = [] then Inr NoConfidentMatch
                 else Inr (Answered (take 1200 (join_space matched)))))"

text \<open>
  Lines 189-248: the part of the route that runs once the question is known not to be
  blank, from the trimmed question and the stored text of the user. Nothing outside the
  \<^verbatim>\<open>try\<close> block raises on strings, and every exception of the block is caught at line 246.
\<close>

definition answer_question :: "tie_order \<Rightarrow> scorer \<Rightarrow> pystr \<Rightarrow> pystr \<Rightarrow> result" where
  "answer_question tie score question doc_text =
     (if strip doc_text = [] then NoDocument
      else
        (case try_body tie score (segment doc_text) question of
           Inl e \<Rightarrow> ComputationFailure e
         | Inr r \<Rightarrow> r))"

text \<open>The route, from the \<^verbatim>\<open>question\<close> field of the request (lines 185-188) on.\<close>

definition ask_question :: "tie_order \<Rightarrow> scorer \<Rightarrow> pystr \<Rightarrow> pystr \<Rightarrow> result" where
  "ask_question tie score question_field doc_text =
     (let question = strip question_field
      in if question = [] then EmptyQuestion
         else answer_question tie score question doc_text)"

text \<open>
  The message of the \<^verbatim>\<open>ValueError\<close> that \<^verbatim>\<open>fit_transform\<close> of scikit-learn raises when no
  term is left for the vocabulary.
\<close>

definition empty_vocabulary :: exn where
  "empty_vocabulary =
     PyException (ustr ''empty vocabulary; perhaps the documents only contain stop words'')"

subsection \<open>The similarity scores, from the specification\<close>

text \<open>
  Modelled from the spec: the vectorizer and the cosine similarity of lines 216-220 are
  calls into scikit-learn, whose code is not in the repository. Sections 4.2 and 4.3 of
  the specification describe what they compute: a vocabulary of terms (windows of one and
  of two tokens, stop terms left out) over the lower-cased units and the lower-cased
  question together; for every text one non-negative weight for each term of the
  vocabulary, the frequency of the term in the text times its inverse document frequency
  over that corpus; and the cosine of the vector of the question and the vector of each
  unit, defined as 0 when either vector has norm zero. The specification fixes neither
  the lower-casing, nor the tokens and the stop terms, nor the formula of the inverse
  document frequency: they are the parameters \<open>lower\<close>, \<open>terms_of\<close> (the terms of a
  lower-cased text, with repetitions) and \<open>idf\<close> (the weight of a term in a corpus).
\<close>

type_synonym ngram = "pystr list"

definition corpus_of :: "(pystr \<Rightarrow> pystr) \<Rightarrow> pystr list \<Rightarrow> pystr \<Rightarrow> pystr list" where
  "corpus_of lower sentences question = map lower sentences @ [lower question]"

definition vocabulary :: "(pystr \<Rightarrow> ngram list) \<Rightarrow> pystr list \<Rightarrow> ngram list" where
  "vocabulary terms_of corpus = remdups (concat (map terms_of corpus))"

definition tfidf_vector ::
  "(pystr \<Rightarrow> ngram list) \<Rightarrow> (ngram \<Rightarrow> real) \<Rightarrow> ngram list \<Rightarrow> pystr \<Rightarrow> real list" where
  "tfidf_vector terms_of weight vocab text =
     map (\<lambda>t. real (count_list (terms_of text) t) * weight t) vocab"

definition dot :: "real list \<Rightarrow> real list \<Rightarrow> real" where
  "dot u v = sum_list (map2 (*) u v)"

definition euclidean_norm :: "real list \<Rightarrow> real" where
  "euclidean_norm u = sqrt (dot u u)"

definition cosine :: "real list \<Rightarrow> real list \<Rightarrow> real" where
  "cosine u v =
     (if euclidean_norm u = 0 \<or> euclidean_norm v = 0 then 0
      else dot u v / (euclidean_norm u * euclidean_norm v))"

text \<open>The score of every unit, in the order of the units.\<close>

definition spec_similarities ::
  "(pystr \<Rightarrow> pystr) \<Rightarrow> (pystr \<Rightarrow> ngram list) \<Rightarrow> (pystr list \<Rightarrow> ngram \<Rightarrow> real) \<Rightarrow>
     pystr list \<Rightarrow> pystr \<Rightarrow> real list" where
  "spec_similarities lower terms_of idf sentences question =
     (let corpus = corpus_of lower sentences question;
          vocab = vocabulary terms_of corpus;
          vec = tfidf_vector terms_of (idf corpus) vocab
      in map (\<lambda>s. cosine (vec (lower question)) (vec (lower s))) sentences)"

text \<open>
  One choice of the parameters, for concrete inputs: the lower-casing of the ASCII letters;
  as tokens the words between whitespace that are not in a list of stop words, as terms
  the tokens and the pairs of neighbouring tokens; and the smoothed inverse document
  frequency \<open>ln ((1 + n) / (1 + df)) + 1\<close>, with \<open>n\<close> the number of texts of the corpus and
  \<open>df\<close> the number of those that have the term.
\<close>

definition ascii_lower :: "pystr \<Rightarrow> pystr" where
  "ascii_lower s = map (\<lambda>c. if 65 \<le> c \<and> c \<le> 90 then c + 32 else c) s"

fun words_from :: "pystr \<Rightarrow> pystr \<Rightarrow> pystr list" where
  "words_from word [] = (if word = [] then [] else [word])"
| "words_from word (c # cs) =
     (if is_space c then (if word = [] then words_from [] cs else word # words_from [] cs)
      else words_from (word @ [c]) cs)"

definition word_terms :: "pystr list \<Rightarrow> pystr \<Rightarrow> ngram list" where
  "word_terms stop_words text =
     (let tokens = filter (\<lambda>w. w \<notin> set stop_words) (words_from [] text)
      in map (\<lambda>w. [w]) tokens @ map2 (\<lambda>w w'. [w, w']) tokens (tl tokens))"

definition smooth_idf :: "(pystr \<Rightarrow> ngram list) \<Rightarrow> pystr list \<Rightarrow> ngram \<Rightarrow> real" where
  "smooth_idf terms_of corpus t =
     ln ((1 + real (length corpus)) /
         (1 + real (length (filter (\<lambda>d. t \<in> set (terms_of d)) corpus)))) + 1"

subsection \<open>Notions used to state the properties\<close>

text \<open>The elements of a list in order, each one kept at its first occurrence only.\<close>

definition first_occurrences :: "'a list \<Rightarrow> 'a list" where
  "first_occurrences xs = rev (remdups (rev xs))"

text \<open>
  The trimmed texts of the ranked units whose score is not below the threshold, in ranking
  order, the empty ones left out.
\<close>

definition qualifying_texts :: "tie_order \<Rightarrow> pystr list \<Rightarrow> real list \<Rightarrow> pystr list" where
  "qualifying_texts tie sentences similarities =
     filter (\<lambda>t. t \<noteq> [])
       (map (\<lambda>i. strip (sentences ! i))
          (filter (\<lambda>i. \<not> similarities ! i < score_threshold)
             (ranked_idx tie similarities)))"

section \<open>Evaluation of the definitions on concrete inputs\<close>

lemmas str_eval = ustr_def is_space_def LF_def CR_def SP_def strip_def replace_cr_def
  is_terminal_def re_split_def split_sentences_def segment_def normalize_newlines_def

lemmas rank_eval = ranked_idx_def top_scores_def argsort_def top_k_def score_threshold_def
  index_order_def reverse_index_order_def

lemmas spec_eval = spec_similarities_def corpus_of_def vocabulary_def tfidf_vector_def dot_def
  euclidean_norm_def cosine_def ascii_lower_def word_terms_def

lemmas route_eval = ask_question_def answer_question_def try_body_def answer_of_def
  IndexError_def empty_vocabulary_def

section \<open>Segmentation\<close>

subsection \<open>Characters that are not whitespace survive every step\<close>

lemma in_set_dropWhile_keep: "x \<in> set xs \<Longrightarrow> \<not> P x \<Longrightarrow> x \<in> set (dropWhile P xs)"
  by (induction xs) auto

lemma strip_Nil_iff: "strip s = [] \<longleftrightarrow> (\<forall>c\<in>set s. is_space c)"
proof
  assume "strip s = []"
  then have "\<forall>c\<in>set (dropWhile is_space s). is_space c"
    by (simp add: strip_def)
  then show "\<forall>c\<in>set s. is_space c"
    using in_set_dropWhile_keep [of _ s is_space] by blast
next
  assume "\<forall>c\<in>set s. is_space c"
  then show "strip s = []"
    by (auto simp: strip_def dest: set_dropWhileD)
qed

lemma is_space_LF: "is_space LF" and is_space_CR: "is_space CR" and is_space_SP: "is_space SP"
  by (simp_all add: is_space_def LF_def CR_def SP_def)

lemma re_sub_ws_keeps: "x \<in> set p \<Longrightarrow> \<not> is_space x \<Longrightarrow> x \<in> set (re_sub_ws p)"
proof (induction p rule: re_sub_ws.induct)
  case 1
  then show ?case by simp
next
  case (2 c cs)
  show ?case
  proof (cases "is_space c")
    case True
    with 2(3,4) have "x \<in> set cs" by auto
    then have "x \<in> set (dropWhile is_space cs)"
      using 2(4) by (rule in_set_dropWhile_keep)
    with 2(1) [OF True] 2(4) True show ?thesis by simp
  next
    case False
    with 2(2) [OF False] 2(3,4) show ?thesis by auto
  qed
qed

lemma re_split_from_keeps:
  "x \<in> set piece \<union> set s \<Longrightarrow> \<not> is_space x \<Longrightarrow> \<exists>p\<in>set (re_split_from prev piece s). x \<in> set p"
proof (induction prev piece s rule: re_split_from.induct)
  case (1 prev piece)
  then show ?case by simp
next
  case (2 prev piece c cs)
  show ?case
  proof (cases "is_terminal prev \<and> is_space c")
    case alt1: True
    show ?thesis
    proof (cases "x \<in> set piece")
      case True
      with alt1 show ?thesis by auto
    next
      case False
      with 2(4,5) alt1 have "x \<in> set cs" by auto
      then have "x \<in> set (dropWhile is_space cs)"
        using 2(5) by (rule in_set_dropWhile_keep)
      with 2(1) [OF alt1] 2(5) alt1 show ?thesis by simp
    qed
  next
    case nt: False
    show ?thesis
    proof (cases "c = LF")
      case alt2: True
      show ?thesis
      proof (cases "x \<in> set piece")
        case True
        with nt alt2 show ?thesis by auto
      next
        case False
        from 2(5) is_space_LF have "x \<noteq> LF" by auto
        with False 2(4) alt2 have "x \<in> set cs" by auto
        then have "x \<in> set (dropWhile (\<lambda>x. x = LF) cs)"
          using \<open>x \<noteq> LF\<close> by (rule in_set_dropWhile_keep)
        with 2(2) [OF nt alt2] 2(5) nt alt2 is_space_LF show ?thesis by simp
      qed
    next
      case False
      with 2(3) [OF nt False] 2(4,5) nt show ?thesis by auto
    qed
  qed
qed

lemma replace_crlf_keeps: "x \<in> set s \<Longrightarrow> x \<noteq> CR \<Longrightarrow> x \<noteq> LF \<Longrightarrow> x \<in> set (replace_crlf s)"
  by (induction s rule: replace_crlf.induct) auto

lemma normalize_newlines_keeps:
  "x \<in> set s \<Longrightarrow> \<not> is_space x \<Longrightarrow> x \<in> set (normalize_newlines s)"
proof -
  assume a: "x \<in> set s" "\<not> is_space x"
  then have ne: "x \<noteq> CR" "x \<noteq> LF"
    using is_space_CR is_space_LF by auto
  with a have "x \<in> set (replace_crlf s)"
    by (simp add: replace_crlf_keeps)
  with ne show ?thesis
    by (auto simp: normalize_newlines_def replace_cr_def)
qed

lemma split_sentences_nonempty:
  assumes "\<exists>x\<in>set raw. \<not> is_space x"
  shows "\<exists>p\<in>set (re_split raw). p \<noteq> [] \<and> strip p \<noteq> [] \<and> strip (re_sub_ws p) \<noteq> []"
proof -
  from assms obtain x where x: "x \<in> set raw" "\<not> is_space x" by blast
  then obtain p where p: "p \<in> set (re_split raw)" "x \<in> set p"
    using re_split_from_keeps [of x "[]" raw None] by (auto simp: re_split_def)
  from p(2) x(2) have "strip p \<noteq> []" by (auto simp: strip_Nil_iff)
  moreover from p(2) x(2) have "strip (re_sub_ws p) \<noteq> []"
    using re_sub_ws_keeps [of x p] by (auto simp: strip_Nil_iff)
  moreover from p(2) have "p \<noteq> []" by auto
  ultimately show ?thesis using p(1) by blast
qed

subsection \<open>The fallback of line 200\<close>

text \<open>
  C10. A document text that passes the guard of line 190 (\<^verbatim>\<open>doc_text.strip()\<close> is not
  empty) has a piece of the split that is not empty after the whitespace is collapsed and
  trimmed; the list \<^verbatim>\<open>sentences\<close> is then not empty and the segmentation is that list: the
  branch \<^verbatim>\<open>sentences = [raw[:2000]]\<close> is not taken.
\<close>

theorem fallback_unreachable:
  assumes "strip doc_text \<noteq> []"
  shows "(\<exists>p\<in>set (re_split (normalize_newlines doc_text)). strip (re_sub_ws p) \<noteq> [])
       \<and> split_sentences (normalize_newlines doc_text) \<noteq> []
       \<and> segment doc_text = split_sentences (normalize_newlines doc_text)"
proof -
  from assms obtain x where "x \<in> set doc_text" "\<not> is_space x"
    by (auto simp: strip_Nil_iff)
  then have "\<exists>x\<in>set (normalize_newlines doc_text). \<not> is_space x"
    using normalize_newlines_keeps by blast
  from split_sentences_nonempty [OF this]
  obtain p where p: "p \<in> set (re_split (normalize_newlines doc_text))"
    "p \<noteq> []" "strip p \<noteq> []" "strip (re_sub_ws p) \<noteq> []" by blast
  then have "filter (\<lambda>p. p \<noteq> [] \<and> strip p \<noteq> []) (re_split (normalize_newlines doc_text)) \<noteq> []"
    by (auto simp: filter_empty_conv)
  then have ne: "split_sentences (normalize_newlines doc_text) \<noteq> []"
    by (simp add: split_sentences_def)
  then have "segment doc_text = split_sentences (normalize_newlines doc_text)"
    by (simp add: segment_def Let_def)
  with p ne show ?thesis by blast
qed


theorem fallback_unreachable_witness:
  "strip (ustr ''Hi.  Yo'') \<noteq> []
   \<and> segment (ustr ''Hi.  Yo'') = split_sentences (normalize_newlines (ustr ''Hi.  Yo''))
   \<and> segment (ustr ''Hi.  Yo'') = [ustr ''Hi.'', ustr ''Yo'']"
proof -
  have h: "strip (ustr ''Hi.  Yo'') \<noteq> []"
    by (simp add: str_eval)
  have "segment (ustr ''Hi.  Yo'') = [ustr ''Hi.'', ustr ''Yo'']"
    by (simp add: str_eval)
  with h fallback_unreachable [OF h] show ?thesis by blast
qed

subsection \<open>Texts without a sentence boundary\<close>

lemma re_split_from_no_boundary:
  "\<forall>c\<in>set s. c \<noteq> LF \<and> \<not> is_terminal (Some c) \<Longrightarrow> \<not> is_terminal prev \<Longrightarrow>
   re_split_from prev piece s = [piece @ s]"
  by (induction prev piece s rule: re_split_from.induct) simp_all

lemma replace_crlf_id: "CR \<notin> set s \<Longrightarrow> replace_crlf s = s"
  by (induction s rule: replace_crlf.induct) auto

lemma normalize_newlines_id: "CR \<notin> set s \<Longrightarrow> normalize_newlines s = s"
  by (auto simp: normalize_newlines_def replace_cr_def replace_crlf_id intro!: map_idI)

lemma re_sub_ws_id: "\<forall>c\<in>set s. \<not> is_space c \<Longrightarrow> re_sub_ws s = s"
  by (induction s rule: re_sub_ws.induct) simp_all

lemma dropWhile_none: "\<forall>c\<in>set s. \<not> P c \<Longrightarrow> dropWhile P s = s"
  by (cases s) simp_all

lemma strip_id: "\<forall>c\<in>set s. \<not> is_space c \<Longrightarrow> strip s = s"
  by (simp add: strip_def dropWhile_none)

lemma segment_without_boundary:
  assumes "CR \<notin> set d" "\<forall>c\<in>set d. c \<noteq> LF \<and> \<not> is_terminal (Some c)" "strip d \<noteq> []"
  shows "segment d = [strip (re_sub_ws d)]"
    and "split_sentences (normalize_newlines d) = [strip (re_sub_ws d)]"
proof -
  have raw: "normalize_newlines d = d"
    using assms(1) by (rule normalize_newlines_id)
  have "re_split d = [d]"
    using re_split_from_no_boundary [OF assms(2), of None "[]"]
    by (simp add: re_split_def is_terminal_def)
  moreover from assms(3) have "d \<noteq> []" by (auto simp: strip_def)
  ultimately have "split_sentences d = [strip (re_sub_ws d)]"
    using assms(3) by (simp add: split_sentences_def)
  with raw show "split_sentences (normalize_newlines d) = [strip (re_sub_ws d)]"
    by simp
  then show "segment d = [strip (re_sub_ws d)]"
    by (simp add: segment_def)
qed

text \<open>
  C3, as amended. For a document text with no \<^verbatim>\<open>.\<close>, \<^verbatim>\<open>!\<close>, \<^verbatim>\<open>?\<close>, line feed or carriage
  return and with at least one character that is not whitespace, whatever its length, the
  fallback of line 200 does not fire: the list of line 197 is already the single unit
  made of the whole text with every run of whitespace collapsed to one space, trimmed,
  and that list is the segmentation. When the text has no whitespace at all, the unit is
  the text itself.
\<close>

theorem run_on_text_is_one_whole_unit:
  assumes "\<forall>c\<in>set doc_text. c \<notin> {46, 33, 63, LF, CR}" and "strip doc_text \<noteq> []"
  shows "split_sentences (normalize_newlines doc_text) = [strip (re_sub_ws doc_text)]
       \<and> segment doc_text = [strip (re_sub_ws doc_text)]
       \<and> ((\<forall>c\<in>set doc_text. \<not> is_space c) \<longrightarrow> segment doc_text = [doc_text])"
proof -
  from assms(1) have cr: "CR \<notin> set doc_text" by auto
  from assms(1) have nb: "\<forall>c\<in>set doc_text. c \<noteq> LF \<and> \<not> is_terminal (Some c)"
    by (auto simp: is_terminal_def)
  have seg: "segment doc_text = [strip (re_sub_ws doc_text)]"
    using cr nb assms(2) by (rule segment_without_boundary(1))
  moreover have "split_sentences (normalize_newlines doc_text) = [strip (re_sub_ws doc_text)]"
    using cr nb assms(2) by (rule segment_without_boundary(2))
  moreover have "segment doc_text = [doc_text]" if "\<forall>c\<in>set doc_text. \<not> is_space c"
    using seg that by (simp add: re_sub_ws_id strip_id)
  ultimately show ?thesis by blast
qed

theorem run_on_text_is_one_whole_unit_witness:
  "set (ustr ''so  it goes '') \<inter> {46, 33, 63, LF, CR} = {}
   \<and> strip (ustr ''so  it goes '') \<noteq> []
   \<and> split_sentences (normalize_newlines (ustr ''so  it goes '')) = [ustr ''so it goes'']
   \<and> segment (ustr ''so  it goes '') = [ustr ''so it goes'']"
proof -
  have h0: "set (ustr ''so  it goes '') \<inter> {46, 33, 63, LF, CR} = {}"
    by (simp add: str_eval)
  then have h1: "\<forall>c\<in>set (ustr ''so  it goes ''). c \<notin> {46, 33, 63, LF, CR}"
    by blast
  have h2: "strip (ustr ''so  it goes '') \<noteq> []"
    by (simp add: str_eval)
  have "strip (re_sub_ws (ustr ''so  it goes '')) = ustr ''so it goes''"
    by (simp add: str_eval)
  with h0 h2 run_on_text_is_one_whole_unit [OF h1 h2] show ?thesis by simp
qed

text \<open>
  C3, as stated, fails: a text of 2001 letters \<^verbatim>\<open>a\<close> has no punctuation and no newline and
  is longer than 2000 characters, and its only unit is the whole text of 2001 characters,
  not the first 2000.
\<close>

theorem run_on_text_not_cut_at_2000:
  "2000 < length (replicate 2001 (97::nat))
   \<and> set (replicate 2001 (97::nat)) \<inter> {46, 33, 63, LF, CR} = {}
   \<and> segment (replicate 2001 97) = [replicate 2001 97]
   \<and> segment (replicate 2001 97) \<noteq> [take 2000 (normalize_newlines (replicate 2001 97))]"
proof -
  let ?d = "replicate 2001 (97::nat)"
  have ns: "\<forall>c\<in>set ?d. \<not> is_space c"
    by (simp add: is_space_def)
  have a: "CR \<notin> set ?d" "\<forall>c\<in>set ?d. c \<noteq> LF \<and> \<not> is_terminal (Some c)"
    by (simp_all add: CR_def LF_def is_terminal_def)
  have "strip ?d = ?d"
    using ns by (rule strip_id)
  then have "strip ?d \<noteq> []" by simp
  with a have "segment ?d = [strip (re_sub_ws ?d)]"
    by (rule segment_without_boundary(1))
  then have seg: "segment ?d = [?d]"
    using ns by (simp add: re_sub_ws_id strip_id)
  have "length (take 2000 (normalize_newlines ?d)) \<noteq> length ?d"
    by simp
  then have "take 2000 (normalize_newlines ?d) \<noteq> ?d"
    by fastforce
  moreover have "set ?d \<inter> {46, 33, 63, LF, CR} = {}"
    by (simp add: CR_def LF_def)
  moreover have "2000 < length ?d"
    by simp
  ultimately show ?thesis
    using seg by simp
qed

section \<open>Ranking\<close>

subsection \<open>The model of argsort and what numpy documents\<close>

lemma set_argsort: "set (argsort tie a) = {0..<length a}"
  by (simp add: argsort_def)

lemma distinct_argsort: "distinct (argsort tie a)"
  by (simp add: argsort_def)

lemma length_argsort: "length (argsort tie a) = length a"
  by (simp add: argsort_def)

lemma argsort_order:
  "sorted_wrt (\<lambda>i j. a ! i < a ! j \<or> (a ! i = a ! j \<and> tie a i \<le> tie a j)) (argsort tie a)"
proof -
  have "sorted (map (\<lambda>i. (a ! i, tie a i)) (argsort tie a))"
    unfolding argsort_def by (rule sorted_sort_key)
  then have "sorted_wrt (\<lambda>i j. (a ! i, tie a i) \<le> (a ! j, tie a j)) (argsort tie a)"
    by (simp add: sorted_map)
  then show ?thesis
    by (rule sorted_wrt_mono_rel [rotated]) auto
qed

lemma is_argsort_argsort: "is_argsort a (argsort tie a)"
proof -
  have "sorted_wrt (\<lambda>i j. a ! i \<le> a ! j) (argsort tie a)"
    using argsort_order [of a tie] by (rule sorted_wrt_mono_rel [rotated]) auto
  then show ?thesis
    by (simp add: is_argsort_def set_argsort distinct_argsort sorted_map)
qed

lemma argsort_complete:
  assumes "is_argsort a p"
  shows "\<exists>tie. argsort tie a = p"
proof -
  from assms have d: "distinct p" and s: "set p = {0..<length a}"
    and o: "sorted (map (\<lambda>i. a ! i) p)"
    by (simp_all add: is_argsort_def)
  define pos where "pos = the_inv_into {..<length p} (\<lambda>k. p ! k)"
  have inj: "inj_on (\<lambda>k. p ! k) {..<length p}"
    using d by (simp add: inj_on_nth)
  have pos: "pos (p ! k) = k" if "k < length p" for k
    unfolding pos_def using inj that by (simp add: the_inv_into_f_f)
  let ?f = "\<lambda>i. (a ! i, pos i)"
  have "set [0..<length a] = set p"
    using s by simp
  then have "mset [0..<length a] = mset p"
    by (simp only: set_eq_iff_mset_eq_distinct [OF distinct_upt d])
  moreover have "inj_on ?f (set [0..<length a])"
  proof (rule inj_onI)
    fix i j assume "i \<in> set [0..<length a]" "j \<in> set [0..<length a]" "?f i = ?f j"
    then have "i \<in> set p" "j \<in> set p" "pos i = pos j"
      using s by simp_all
    then obtain k l where "k < length p" "p ! k = i" "l < length p" "p ! l = j"
      by (auto simp: in_set_conv_nth)
    with \<open>pos i = pos j\<close> pos show "i = j" by auto
  qed
  moreover have "sorted (map ?f p)"
  proof (unfold sorted_iff_nth_mono, intro allI impI)
    fix k l assume kl: "k \<le> l" "l < length (map ?f p)"
    then have "map (\<lambda>i. a ! i) p ! k \<le> map (\<lambda>i. a ! i) p ! l"
      using o by (simp add: sorted_iff_nth_mono)
    with kl pos show "map ?f p ! k \<le> map ?f p ! l"
      by auto
  qed
  ultimately have "sort_key ?f [0..<length a] = p"
    by (rule sort_key_inj_key_eq)
  then have "argsort (\<lambda>b i. pos i) a = p"
    by (simp add: argsort_def)
  then show ?thesis by blast
qed

subsection \<open>The order of the ranked indices\<close>

lemma ranked_idx_order:
  "sorted_wrt (\<lambda>i j. a ! j < a ! i \<or> (a ! i = a ! j \<and> tie a j \<le> tie a i)) (ranked_idx tie a)"
proof -
  have "sorted_wrt (\<lambda>i j. a ! j < a ! i \<or> (a ! j = a ! i \<and> tie a j \<le> tie a i))
          (rev (argsort tie a))"
    using argsort_order [of a tie] by (simp add: sorted_wrt_rev)
  then have "sorted_wrt (\<lambda>i j. a ! j < a ! i \<or> (a ! i = a ! j \<and> tie a j \<le> tie a i))
          (rev (argsort tie a))"
    by (rule sorted_wrt_mono_rel [rotated]) auto
  then show ?thesis
    unfolding ranked_idx_def by (rule sorted_wrt_take)
qed

lemma set_ranked_idx_subset: "set (ranked_idx tie a) \<subseteq> {0..<length a}"
  using set_take_subset [of top_k "rev (argsort tie a)"]
  by (simp add: ranked_idx_def set_argsort)

lemma distinct_ranked_idx: "distinct (ranked_idx tie a)"
  by (simp add: ranked_idx_def distinct_argsort)

lemma length_ranked_idx: "length (ranked_idx tie a) = min top_k (length a)"
  by (simp add: ranked_idx_def length_argsort min.commute)

lemma ranked_idx_are_top:
  assumes "i < length a" "i \<notin> set (ranked_idx tie a)" "j \<in> set (ranked_idx tie a)"
  shows "a ! i \<le> a ! j"
proof -
  have "rev (argsort tie a) = ranked_idx tie a @ drop top_k (rev (argsort tie a))"
    by (simp add: ranked_idx_def)
  moreover from assms(1) have "i \<in> set (rev (argsort tie a))"
    by (simp add: set_argsort)
  ultimately have "i \<in> set (drop top_k (rev (argsort tie a)))"
    using assms(2) by (metis Un_iff set_append)
  moreover have "sorted_wrt (\<lambda>i j. a ! j < a ! i \<or> (a ! j = a ! i \<and> tie a j \<le> tie a i))
                   (ranked_idx tie a @ drop top_k (rev (argsort tie a)))"
    using argsort_order [of a tie] by (simp add: sorted_wrt_rev ranked_idx_def)
  ultimately have "a ! i < a ! j \<or> (a ! i = a ! j \<and> tie a i \<le> tie a j)"
    using assms(3) unfolding sorted_wrt_append by blast
  then show ?thesis by auto
qed

text \<open>
  C2, as amended. The ranking step orders the unit indices by similarity score descending
  and keeps the first three: whatever order argsort leaves equal scores in, the ranked
  indices are distinct indices of units, there are \<open>min 3 n\<close> of them, their scores are
  descending, and no unit left out has a higher score than a ranked one. Among units with
  equal scores the order is the reverse of the one argsort leaves them in, which numpy does
  not fix: the code makes no tie-break of its own, by document order or otherwise.
\<close>

theorem ranked_idx_descending:
  "sorted_wrt (\<lambda>i j. sims ! j < sims ! i \<or> (sims ! i = sims ! j \<and> tie sims j \<le> tie sims i))
     (ranked_idx tie sims)
   \<and> ranked_idx tie sims = take 3 (rev (argsort tie sims))
   \<and> is_argsort sims (argsort tie sims)
   \<and> distinct (ranked_idx tie sims)
   \<and> set (ranked_idx tie sims) \<subseteq> {0..<length sims}
   \<and> length (ranked_idx tie sims) = min 3 (length sims)
   \<and> (\<forall>i<length sims. i \<notin> set (ranked_idx tie sims) \<longrightarrow>
        (\<forall>j\<in>set (ranked_idx tie sims). sims ! i \<le> sims ! j))"
  using ranked_idx_order [of sims tie] distinct_ranked_idx [of tie sims]
    set_ranked_idx_subset [of tie sims] length_ranked_idx [of tie sims]
    ranked_idx_are_top [of _ sims tie] is_argsort_argsort [of sims tie]
  by (simp add: top_k_def ranked_idx_def)

theorem ranked_idx_descending_witness:
  "ranked_idx reverse_index_order [0.5, 0.5, 0.25, 0.25] = [0, 1, 2]
   \<and> ranked_idx index_order [0.1, 0.5, 0.3, 0.5, 0.2] = [3, 1, 2]
   \<and> [0.1, 0.5, 0.3, 0.5, 0.2 :: real] ! 4 \<le> [0.1, 0.5, 0.3, 0.5, 0.2] ! 2
   \<and> is_argsort [0.1, 0.5, 0.3, 0.5, 0.2] (argsort index_order [0.1, 0.5, 0.3, 0.5, 0.2])"
proof -
  have "ranked_idx reverse_index_order [0.5, 0.5, 0.25, 0.25] = [0, 1, 2]"
    by (simp add: rank_eval)
  moreover have "ranked_idx index_order [0.1, 0.5, 0.3, 0.5, 0.2] = [3, 1, 2]"
    by (simp add: rank_eval)
  ultimately show ?thesis
    using ranked_idx_descending [of "[0.1, 0.5, 0.3, 0.5, 0.2]" index_order]
    by simp
qed

text \<open>
  C2, as stated, fails: with equal values left in index order, an order that satisfies
  what numpy documents, the second of two units with the same score 0.5 is ranked first.
  With the reverse order the first one is: the order among equal scores is not fixed by
  the code.
\<close>

theorem equal_scores_order_not_fixed:
  "ranked_idx index_order [1/2, 1/2] = [1, 0]
   \<and> is_argsort [1/2, 1/2] (argsort index_order [1/2, 1/2])
   \<and> ranked_idx index_order [1/2, 1/2] \<noteq> [0, 1]
   \<and> ranked_idx reverse_index_order [1/2, 1/2] = [0, 1]"
  using is_argsort_argsort [of "[1/2, 1/2]" index_order] by (simp add: rank_eval)

section \<open>The answer\<close>

subsection \<open>The loop over the ranked units\<close>

lemma remdups_snoc: "remdups (ys @ [x]) = filter (\<lambda>y. y \<noteq> x) (remdups ys) @ [x]"
  by (induction ys) auto

lemma first_occurrences_Cons:
  "first_occurrences (x # xs) = x # filter (\<lambda>y. y \<noteq> x) (first_occurrences xs)"
  by (simp add: first_occurrences_def remdups_snoc rev_filter)

lemma distinct_first_occurrences: "distinct (first_occurrences xs)"
  by (simp add: first_occurrences_def)

lemma set_first_occurrences: "set (first_occurrences xs) = set xs"
  by (simp add: first_occurrences_def)

lemma collect_matches_in_range:
  "collect_matches S ps matched used = Inr m \<Longrightarrow>
   \<forall>(i, s)\<in>set ps. \<not> s < score_threshold \<longrightarrow> i < length S"
  by (induction S ps matched used rule: collect_matches.induct)
     (auto simp: Let_def split: if_splits)

lemma collect_matches_first_occurrences:
  "\<forall>(i, s)\<in>set ps. \<not> s < score_threshold \<longrightarrow> i < length S \<Longrightarrow> used = set matched \<Longrightarrow>
   collect_matches S ps matched used =
     Inr (matched @ filter (\<lambda>t. t \<notin> set matched)
            (first_occurrences
               (filter (\<lambda>t. t \<noteq> [])
                  (map (\<lambda>(i, s). strip (S ! i)) (filter (\<lambda>(i, s). \<not> s < score_threshold) ps)))))"
proof (induction S ps matched used rule: collect_matches.induct)
  case (1 sentences matched used)
  then show ?case by (simp add: first_occurrences_def)
next
  case (2 sentences idx score rest matched used)
  show ?case
  proof (cases "score < score_threshold")
    case True
    with 2 show ?thesis by simp
  next
    case False
    with 2(4) have inr: "\<not> length sentences \<le> idx" by auto
    from 2(4) have rest: "\<forall>(i, s)\<in>set rest. \<not> s < score_threshold \<longrightarrow> i < length sentences"
      by simp
    let ?text = "strip (sentences ! idx)"
    show ?thesis
    proof (cases "?text \<noteq> [] \<and> ?text \<notin> used")
      case True
      have "collect_matches sentences rest (matched @ [?text]) (insert ?text used) =
              Inr ((matched @ [?text]) @ filter (\<lambda>t. t \<notin> set (matched @ [?text]))
                (first_occurrences (filter (\<lambda>t. t \<noteq> [])
                  (map (\<lambda>(i, s). strip (sentences ! i))
                     (filter (\<lambda>(i, s). \<not> s < score_threshold) rest)))))"
        using False inr True rest 2(5) by (intro 2(2)) simp_all
      moreover have "\<And>xs. filter (\<lambda>t. t \<notin> set (matched @ [?text])) xs =
          filter (\<lambda>t. t \<notin> set matched) (filter (\<lambda>y. y \<noteq> ?text) xs)"
        by (auto intro: filter_cong)
      ultimately show ?thesis
        using False inr True 2(5) by (simp add: first_occurrences_Cons Let_def)
    next
      case skip: False
      have ih: "collect_matches sentences rest matched used =
              Inr (matched @ filter (\<lambda>t. t \<notin> set matched)
                (first_occurrences (filter (\<lambda>t. t \<noteq> [])
                  (map (\<lambda>(i, s). strip (sentences ! i))
                     (filter (\<lambda>(i, s). \<not> s < score_threshold) rest)))))"
        using False inr skip rest 2(5) by (intro 2(3)) simp_all
      show ?thesis
      proof (cases "?text = []")
        case True
        with ih False inr show ?thesis by (simp add: Let_def)
      next
        case ne: False
        with skip 2(5) have mem: "?text \<in> set matched" by simp
        then have "\<And>xs. filter (\<lambda>t. t \<notin> set matched) (filter (\<lambda>y. y \<noteq> ?text) xs) =
            filter (\<lambda>t. t \<notin> set matched) xs"
          by (auto intro: filter_cong)
        with ih False inr ne mem 2(5) show ?thesis
          by (simp add: first_occurrences_Cons Let_def)
      qed
    qed
  qed
qed

lemma zip_ranked_scores:
  "map (\<lambda>(i, s). f i) (filter (\<lambda>(i, s). \<not> s < c) (zip (ranked_idx tie a) (top_scores tie a))) =
   map f (filter (\<lambda>i. \<not> a ! i < c) (ranked_idx tie a))"
proof -
  have "zip (ranked_idx tie a) (top_scores tie a) = map (\<lambda>i. (i, a ! i)) (ranked_idx tie a)"
    by (simp add: top_scores_def zip_map2 zip_same_conv_map)
  then show ?thesis
    by (simp add: filter_map comp_def)
qed

lemma collect_matches_ranked:
  assumes "collect_matches S (zip (ranked_idx tie a) (top_scores tie a)) [] {} = Inr m"
  shows "m = first_occurrences (qualifying_texts tie S a)"
proof -
  from collect_matches_in_range [OF assms]
  have "collect_matches S (zip (ranked_idx tie a) (top_scores tie a)) [] {} =
     Inr ([] @ filter (\<lambda>t. t \<notin> set [])
            (first_occurrences
               (filter (\<lambda>t. t \<noteq> [])
                  (map (\<lambda>(i, s). strip (S ! i))
                    (filter (\<lambda>(i, s). \<not> s < score_threshold) (zip (ranked_idx tie a) (top_scores tie a)))))))"
    by (intro collect_matches_first_occurrences) simp_all
  with assms show ?thesis
    by (simp add: qualifying_texts_def zip_ranked_scores)
qed

lemma ask_question_Answered:
  assumes "ask_question tie score qf d = Answered t"
  shows "strip qf \<noteq> [] \<and> strip d \<noteq> [] \<and>
    (\<exists>sims matched. score (segment d) (strip qf) = Inr sims \<and>
       top_scores tie sims \<noteq> [] \<and> \<not> hd (top_scores tie sims) < score_threshold \<and>
       collect_matches (segment d) (zip (ranked_idx tie sims) (top_scores tie sims)) [] {} = Inr matched \<and>
       matched \<noteq> [] \<and> t = take 1200 (join_space matched))"
  using assms
  by (auto simp: ask_question_def answer_question_def try_body_def Let_def
           split: if_splits sum.splits)

subsection \<open>The confidence threshold\<close>

lemma collect_matches_ranked_in_range:
  assumes "set (ranked_idx tie a) \<subseteq> {0..<length S}"
  shows "collect_matches S (zip (ranked_idx tie a) (top_scores tie a)) [] {} =
           Inr (first_occurrences (qualifying_texts tie S a))"
proof -
  from assms have "\<forall>(i, s)\<in>set (zip (ranked_idx tie a) (top_scores tie a)).
      \<not> s < score_threshold \<longrightarrow> i < length S"
    by (auto dest: set_zip_leftD)
  then have "collect_matches S (zip (ranked_idx tie a) (top_scores tie a)) [] {} =
     Inr ([] @ filter (\<lambda>t. t \<notin> set [])
            (first_occurrences
               (filter (\<lambda>t. t \<noteq> [])
                  (map (\<lambda>(i, s). strip (S ! i))
                    (filter (\<lambda>(i, s). \<not> s < score_threshold) (zip (ranked_idx tie a) (top_scores tie a)))))))"
    by (intro collect_matches_first_occurrences) simp_all
  then show ?thesis
    by (simp add: qualifying_texts_def zip_ranked_scores)
qed

lemma hd_top_scores_is_Max:
  assumes "top_scores tie a \<noteq> []"
  shows "hd (top_scores tie a) = Max (set (top_scores tie a))"
proof -
  from assms obtain r rs where r: "ranked_idx tie a = r # rs"
    by (cases "ranked_idx tie a") (auto simp: top_scores_def)
  with ranked_idx_order [of a tie] have "\<forall>j\<in>set rs. a ! j \<le> a ! r"
    by auto
  with r have "\<forall>x\<in>set (top_scores tie a). x \<le> a ! r"
    by (auto simp: top_scores_def)
  moreover from r have "a ! r \<in> set (top_scores tie a)" "hd (top_scores tie a) = a ! r"
    by (simp_all add: top_scores_def)
  ultimately show ?thesis
    using Max_eqI [of "set (top_scores tie a)" "a ! r"] by simp
qed

lemma strip_keeps: "x \<in> set s \<Longrightarrow> \<not> is_space x \<Longrightarrow> x \<in> set (strip s)"
proof -
  assume a: "x \<in> set s" "\<not> is_space x"
  then have "x \<in> set (rev (dropWhile is_space s))"
    by (simp add: in_set_dropWhile_keep)
  then have "x \<in> set (dropWhile is_space (rev (dropWhile is_space s)))"
    using a(2) by (rule in_set_dropWhile_keep)
  then show ?thesis by (simp add: strip_def)
qed

lemma segment_is_split_sentences:
  assumes "strip d \<noteq> []"
  shows "segment d = split_sentences (normalize_newlines d)" and "segment d \<noteq> []"
proof -
  from assms obtain x where "x \<in> set d" "\<not> is_space x"
    by (auto simp: strip_Nil_iff)
  then have "\<exists>x\<in>set (normalize_newlines d). \<not> is_space x"
    using normalize_newlines_keeps by blast
  from split_sentences_nonempty [OF this]
  have "filter (\<lambda>p. p \<noteq> [] \<and> strip p \<noteq> []) (re_split (normalize_newlines d)) \<noteq> []"
    by (auto simp: filter_empty_conv)
  then have ne: "split_sentences (normalize_newlines d) \<noteq> []"
    by (simp add: split_sentences_def)
  then show "segment d = split_sentences (normalize_newlines d)"
    by (simp add: segment_def Let_def)
  with ne show "segment d \<noteq> []" by simp
qed

lemma segment_units_not_blank:
  assumes "strip d \<noteq> []" "u \<in> set (segment d)"
  shows "strip u \<noteq> []"
proof -
  from assms obtain p where p: "strip p \<noteq> []" "u = strip (re_sub_ws p)"
    by (auto simp: segment_is_split_sentences(1) split_sentences_def)
  from p(1) obtain x where x: "x \<in> set p" "\<not> is_space x"
    by (auto simp: strip_Nil_iff)
  then have "x \<in> set (re_sub_ws p)" by (rule re_sub_ws_keeps)
  then have "x \<in> set u" using x(2) p(2) by (simp add: strip_keeps)
  with x(2) show ?thesis by (auto simp: strip_Nil_iff)
qed

lemma ask_question_not_blank:
  "strip qf \<noteq> [] \<Longrightarrow> strip d \<noteq> [] \<Longrightarrow>
   ask_question tie score qf d =
     (case try_body tie score (segment d) (strip qf) of Inl e \<Rightarrow> ComputationFailure e | Inr r \<Rightarrow> r)"
  by (simp add: ask_question_def answer_question_def)

text \<open>
  C1. In an invocation that passes both guards and in which vectorization and scoring
  succeed, with no more scores than units (the library gives one for every unit): if the top three are empty or the best (highest)
  score among them is below 0.20, the result is \<open>NoConfidentMatch\<close>; if the best score
  is 0.20 or more, the result is \<open>Answered\<close>. The unit with the best score always
  qualifies then, since no unit of the segmentation is blank.
\<close>

theorem threshold_gate:
  assumes "strip question_field \<noteq> []" and "strip doc_text \<noteq> []"
    and "score (segment doc_text) (strip question_field) = Inr sims"
    and "length sims \<le> length (segment doc_text)"
  shows "(top_scores tie sims = [] \<or> Max (set (top_scores tie sims)) < score_threshold \<longrightarrow>
            ask_question tie score question_field doc_text = NoConfidentMatch)
       \<and> (top_scores tie sims \<noteq> [] \<and> score_threshold \<le> Max (set (top_scores tie sims)) \<longrightarrow>
            (\<exists>answer. ask_question tie score question_field doc_text = Answered answer))"
proof (intro conjI impI)
  assume "top_scores tie sims = [] \<or> Max (set (top_scores tie sims)) < score_threshold"
  moreover have "top_scores tie sims \<noteq> [] \<longrightarrow> hd (top_scores tie sims) = Max (set (top_scores tie sims))"
    using hd_top_scores_is_Max [of tie sims] by blast
  ultimately have "top_scores tie sims = [] \<or> hd (top_scores tie sims) < score_threshold"
    by metis
  then show "ask_question tie score question_field doc_text = NoConfidentMatch"
    using assms(1-3) by (auto simp: ask_question_not_blank try_body_def)
next
  let ?S = "segment doc_text"
  assume a: "top_scores tie sims \<noteq> [] \<and> score_threshold \<le> Max (set (top_scores tie sims))"
  then have "hd (top_scores tie sims) = Max (set (top_scores tie sims))"
    by (intro hd_top_scores_is_Max) simp
  with a have gate: "\<not> (top_scores tie sims = [] \<or> hd (top_scores tie sims) < score_threshold)"
    by linarith
  from a obtain r rs where r: "ranked_idx tie sims = r # rs"
    by (cases "ranked_idx tie sims") (auto simp: top_scores_def)
  have sub: "set (ranked_idx tie sims) \<subseteq> {0..<length ?S}"
    using set_ranked_idx_subset [of tie sims] assms(4) by auto
  then have "r < length ?S" using r by simp
  then have "strip (?S ! r) \<noteq> []"
    using assms(2) by (simp add: segment_units_not_blank)
  moreover from gate r have "\<not> sims ! r < score_threshold"
    by (simp add: top_scores_def)
  ultimately have "strip (?S ! r) \<in> set (qualifying_texts tie ?S sims)"
    using r by (simp add: qualifying_texts_def)
  then have "first_occurrences (qualifying_texts tie ?S sims) \<noteq> []"
    using set_first_occurrences [of "qualifying_texts tie ?S sims"] by auto
  with gate collect_matches_ranked_in_range [OF sub]
  show "\<exists>answer. ask_question tie score question_field doc_text = Answered answer"
    using assms(1-3) by (simp add: ask_question_not_blank try_body_def)
qed

theorem threshold_gate_witness:
  "ask_question index_order (\<lambda>S q. Inr [0.2, 0]) (ustr ''what color is the sky'')
     (ustr ''The sky is blue. Water is wet.'') = Answered (ustr ''The sky is blue.'')
   \<and> ask_question index_order (\<lambda>S q. Inr [0.19]) (ustr ''quantum entanglement'')
     (ustr ''Lorem ipsum dolor sit amet.'') = NoConfidentMatch
   \<and> ask_question index_order (\<lambda>S q. Inr []) (ustr ''quantum entanglement'')
     (ustr ''Lorem ipsum dolor sit amet.'') = NoConfidentMatch"
proof -
  let ?q = "ustr ''what color is the sky''" and ?d = "ustr ''The sky is blue. Water is wet.''"
  let ?q' = "ustr ''quantum entanglement''" and ?d' = "ustr ''Lorem ipsum dolor sit amet.''"
  have q: "strip ?q \<noteq> []" and d: "strip ?d \<noteq> []"
    and q': "strip ?q' \<noteq> []" and d': "strip ?d' \<noteq> []"
    by (simp_all add: str_eval)
  have len: "length [0.2, 0 :: real] \<le> length (segment ?d)"
    and len': "length [0.19 :: real] \<le> length (segment ?d')"
    and len0: "length ([] :: real list) \<le> length (segment ?d')"
    by (simp_all add: str_eval)
  have top: "top_scores index_order [0.2, 0] = [0.2, 0]" and top': "top_scores index_order [0.19] = [0.19]"
    and top0: "top_scores index_order [] = []"
    by (simp_all add: rank_eval)
  have "\<exists>answer. ask_question index_order (\<lambda>S q. Inr [0.2, 0]) ?q ?d = Answered answer"
    using threshold_gate [where tie = index_order, of ?q ?d "\<lambda>S q. Inr [0.2, 0]" "[0.2, 0]", OF q d refl len] top
    by (simp add: score_threshold_def)
  moreover have "ask_question index_order (\<lambda>S q. Inr [0.2, 0]) ?q ?d = Answered (ustr ''The sky is blue.'')"
    by (simp add: str_eval rank_eval route_eval)
  moreover have "ask_question index_order (\<lambda>S q. Inr [0.19]) ?q' ?d' = NoConfidentMatch"
    using threshold_gate [where tie = index_order, of ?q' ?d' "\<lambda>S q. Inr [0.19]" "[0.19]", OF q' d' refl len'] top'
    by (simp add: score_threshold_def)
  moreover have "ask_question index_order (\<lambda>S q. Inr []) ?q' ?d' = NoConfidentMatch"
    using threshold_gate [where tie = index_order, of ?q' ?d' "\<lambda>S q. Inr []" "[]", OF q' d' refl len0] top0
    by simp
  ultimately show ?thesis by blast
qed

subsection \<open>The answer string\<close>

text \<open>
  C5. Whenever the route answers, the answer is the accepted texts joined with single
  spaces and cut after 1200 characters, wherever that falls; it has at most 1200
  characters, and exactly 1200 when the joined texts are longer.
\<close>

theorem answer_at_most_1200:
  assumes "ask_question tie score question_field doc_text = Answered answer"
  shows "length answer \<le> 1200
       \<and> (\<exists>sims matched.
             score (segment doc_text) (strip question_field) = Inr sims
           \<and> collect_matches (segment doc_text)
                 (zip (ranked_idx tie sims) (top_scores tie sims)) [] {} = Inr matched
           \<and> answer = take 1200 (join_space matched)
           \<and> (1200 \<le> length (join_space matched) \<longrightarrow> length answer = 1200))"
proof -
  from ask_question_Answered [OF assms] obtain sims matched where
    "score (segment doc_text) (strip question_field) = Inr sims"
    "collect_matches (segment doc_text) (zip (ranked_idx tie sims) (top_scores tie sims)) [] {} = Inr matched"
    "answer = take 1200 (join_space matched)"
    by blast
  then show ?thesis by auto
qed

lemma long_answer_is_cut:
  "ask_question index_order (\<lambda>S q. Inr [1]) (ustr ''a'') (replicate 1300 97) = Answered (replicate 1200 97)"
proof -
  let ?d = "replicate 1300 (97::nat)"
  have ns: "\<forall>c\<in>set ?d. \<not> is_space c"
    by (simp add: is_space_def)
  then have sd: "strip ?d = ?d"
    by (rule strip_id)
  have "CR \<notin> set ?d" "\<forall>c\<in>set ?d. c \<noteq> LF \<and> \<not> is_terminal (Some c)" "strip ?d \<noteq> []"
    by (simp_all add: CR_def LF_def is_terminal_def sd)
  then have "segment ?d = [strip (re_sub_ws ?d)]"
    by (rule segment_without_boundary(1))
  then have seg: "segment ?d = [?d]"
    using ns by (simp add: re_sub_ws_id strip_id)
  have q: "strip (ustr ''a'') \<noteq> []"
    by (simp add: str_eval)
  have r: "ranked_idx index_order [1] = [0]" "top_scores index_order [1] = [1]"
    by (simp_all add: rank_eval)
  have "try_body index_order (\<lambda>S q. Inr [1]) [?d] (strip (ustr ''a'')) = Inr (Answered (replicate 1200 97))"
    by (simp add: try_body_def r sd score_threshold_def)
  with q sd seg show ?thesis
    by (simp add: ask_question_not_blank)
qed

theorem answer_at_most_1200_witness:
  "ask_question index_order (\<lambda>S q. Inr [0.5, 0.9]) (ustr ''sky'') (ustr ''The sky is blue. So is the sea.'')
     = Answered (ustr ''So is the sea. The sky is blue.'')
   \<and> length (ustr ''So is the sea. The sky is blue.'') \<le> 1200
   \<and> ask_question index_order (\<lambda>S q. Inr [1]) (ustr ''a'') (replicate 1300 97) = Answered (replicate 1200 97)
   \<and> length (replicate 1200 (97 :: nat)) \<le> 1200"
proof -
  have h: "ask_question index_order (\<lambda>S q. Inr [0.5, 0.9]) (ustr ''sky'') (ustr ''The sky is blue. So is the sea.'')
     = Answered (ustr ''So is the sea. The sky is blue.'')"
    by (simp add: str_eval rank_eval route_eval)
  from answer_at_most_1200 [OF h] answer_at_most_1200 [OF long_answer_is_cut] h long_answer_is_cut
  show ?thesis by blast
qed

text \<open>
  C7. Whenever the route answers, the accepted texts are the trimmed, non-empty texts of
  the ranked units that reach the threshold, taken in ranking order, each kept at its
  first occurrence only: a text that two of these units share is accepted once, and the
  answer is made of the accepted texts.
\<close>

theorem answer_has_each_text_once:
  assumes "ask_question tie score question_field doc_text = Answered answer"
  shows "\<exists>sims matched.
            score (segment doc_text) (strip question_field) = Inr sims
          \<and> collect_matches (segment doc_text)
                (zip (ranked_idx tie sims) (top_scores tie sims)) [] {} = Inr matched
          \<and> matched = first_occurrences (qualifying_texts tie (segment doc_text) sims)
          \<and> distinct matched
          \<and> answer = take 1200 (join_space matched)"
proof -
  from ask_question_Answered [OF assms] obtain sims matched where m:
    "score (segment doc_text) (strip question_field) = Inr sims"
    "collect_matches (segment doc_text) (zip (ranked_idx tie sims) (top_scores tie sims)) [] {} = Inr matched"
    "answer = take 1200 (join_space matched)"
    by blast
  from m(2) have "matched = first_occurrences (qualifying_texts tie (segment doc_text) sims)"
    by (rule collect_matches_ranked)
  with m show ?thesis
    using distinct_first_occurrences by blast
qed

theorem answer_has_each_text_once_witness:
  "ask_question index_order (\<lambda>S q. Inr [0.9, 0.4, 0.9]) (ustr ''cats'')
     (ustr ''Cats purr. Dogs bark. Cats purr.'') = Answered (ustr ''Cats purr. Dogs bark.'')
   \<and> first_occurrences (qualifying_texts index_order (segment (ustr ''Cats purr. Dogs bark. Cats purr.''))
         [0.9, 0.4, 0.9]) = [ustr ''Cats purr.'', ustr ''Dogs bark.'']"
proof -
  let ?d = "ustr ''Cats purr. Dogs bark. Cats purr.''"
  have h: "ask_question index_order (\<lambda>S q. Inr [0.9, 0.4, 0.9]) (ustr ''cats'') ?d
             = Answered (ustr ''Cats purr. Dogs bark.'')"
    by (simp add: str_eval rank_eval route_eval)
  have "first_occurrences (qualifying_texts index_order (segment ?d) [0.9, 0.4, 0.9])
          = [ustr ''Cats purr.'', ustr ''Dogs bark.'']"
    by (simp add: str_eval rank_eval first_occurrences_def qualifying_texts_def)
  with answer_has_each_text_once [OF h] h show ?thesis by blast
qed

section \<open>Guards and failures\<close>

lemma try_body_scorer_raises:
  "score S q = Inl e \<Longrightarrow> try_body tie score S q = Inl e"
  by (simp add: try_body_def)

text \<open>
  C6. With an empty document text, and with any text that is blank, the part of the route
  after the question guard returns \<open>NoDocument\<close> for every question and every scorer:
  neither the segmentation nor the scorer has a part in the result. So does the route for
  every question field that is not blank.
\<close>

theorem no_document_short_circuit:
  assumes "strip doc_text = []"
  shows "answer_question tie score question doc_text = NoDocument
       \<and> (strip question_field \<noteq> [] \<longrightarrow>
            ask_question tie score question_field doc_text = NoDocument)"
  using assms by (simp add: answer_question_def ask_question_def)

theorem no_document_short_circuit_witness:
  "strip [] = []
   \<and> answer_question index_order (\<lambda>S q. Inr [1]) (ustr ''anything'') [] = NoDocument
   \<and> ask_question index_order (\<lambda>S q. Inl IndexError) (ustr ''anything'') [] = NoDocument"
proof -
  have h: "strip [] = []"
    by (simp add: strip_def)
  have q: "strip (ustr ''anything'') \<noteq> []"
    by (simp add: str_eval)
  from no_document_short_circuit [OF h, of index_order "\<lambda>S q. Inr [1]" "ustr ''anything''" "ustr ''anything''"]
       no_document_short_circuit [OF h, of index_order "\<lambda>S q. Inl IndexError" "ustr ''anything''" "ustr ''anything''"]
       h q
  show ?thesis by blast
qed

text \<open>
  C9. In an invocation that passes both guards, an exception raised by vectorization or
  scoring, and any exception raised in the \<^verbatim>\<open>try\<close> block, is caught: the route returns the
  result \<open>ComputationFailure\<close>, whose answer is \<^verbatim>\<open>Could not compute answer: \<close> followed by
  the text of the exception. The route has no other way to fail: its result is a value of
  type \<open>result\<close> on every scorer, question and document.
\<close>

theorem computation_failure_is_caught:
  assumes "strip question_field \<noteq> []" and "strip doc_text \<noteq> []"
    and "score (segment doc_text) (strip question_field) = Inl e
         \<or> try_body tie score (segment doc_text) (strip question_field) = Inl e"
  shows "ask_question tie score question_field doc_text = ComputationFailure e
       \<and> answer_of (ask_question tie score question_field doc_text)
           = ustr ''Could not compute answer: '' @ str_of e"
proof -
  from assms(3) have "try_body tie score (segment doc_text) (strip question_field) = Inl e"
    by (auto simp: try_body_scorer_raises)
  with assms(1,2) have "ask_question tie score question_field doc_text = ComputationFailure e"
    by (simp add: ask_question_not_blank)
  then show ?thesis by (simp add: answer_of_def)
qed

theorem computation_failure_is_caught_witness:
  "ask_question index_order (\<lambda>S q. Inl (PyException (ustr ''boom''))) (ustr ''why'') (ustr ''Because.'')
     = ComputationFailure (PyException (ustr ''boom''))
   \<and> answer_of (ask_question index_order (\<lambda>S q. Inl (PyException (ustr ''boom''))) (ustr ''why'')
        (ustr ''Because.'')) = ustr ''Could not compute answer: boom''
   \<and> ask_question index_order (\<lambda>S q. Inr [0.1, 0.7]) (ustr ''why'') (ustr ''Because.'')
     = ComputationFailure IndexError"
proof -
  have q: "strip (ustr ''why'') \<noteq> []" and d: "strip (ustr ''Because.'') \<noteq> []"
    by (simp_all add: str_eval)
  have "try_body index_order (\<lambda>S q. Inr [0.1, 0.7]) (segment (ustr ''Because.'')) (strip (ustr ''why''))
          = Inl IndexError"
    by (simp add: str_eval rank_eval try_body_def)
  then have "ask_question index_order (\<lambda>S q. Inr [0.1, 0.7]) (ustr ''why'') (ustr ''Because.'')
     = ComputationFailure IndexError"
    using computation_failure_is_caught [OF q d, of "\<lambda>S q. Inr [0.1, 0.7]" IndexError index_order] by simp
  moreover have "ustr ''Could not compute answer: '' @ str_of (PyException (ustr ''boom''))
      = ustr ''Could not compute answer: boom''"
    by (simp add: ustr_def)
  moreover have "ask_question index_order (\<lambda>S q. Inl (PyException (ustr ''boom''))) (ustr ''why'')
        (ustr ''Because.'') = ComputationFailure (PyException (ustr ''boom''))
     \<and> answer_of (ask_question index_order (\<lambda>S q. Inl (PyException (ustr ''boom''))) (ustr ''why'')
        (ustr ''Because.'')) = ustr ''Could not compute answer: '' @ str_of (PyException (ustr ''boom''))"
    using computation_failure_is_caught [OF q d, of "\<lambda>S q. Inl (PyException (ustr ''boom''))"
        "PyException (ustr ''boom'')" index_order]
    by blast
  ultimately show ?thesis
    by metis
qed

text \<open>
  C4, as amended. In an invocation that passes both guards, when vectorization raises for
  an empty vocabulary the route does not raise: the exception is caught with every other
  one, and the result is \<open>ComputationFailure\<close> with the answer
  \<^verbatim>\<open>Could not compute answer: empty vocabulary; perhaps the documents only contain stop words\<close>,
  which is not the answer of \<open>NoConfidentMatch\<close>.
\<close>

theorem empty_vocabulary_is_a_failure:
  assumes "strip question_field \<noteq> []" and "strip doc_text \<noteq> []"
    and "score (segment doc_text) (strip question_field) = Inl empty_vocabulary"
  shows "ask_question tie score question_field doc_text = ComputationFailure empty_vocabulary
       \<and> answer_of (ask_question tie score question_field doc_text)
           = ustr ''Could not compute answer: empty vocabulary; perhaps the documents only contain stop words''
       \<and> answer_of (ask_question tie score question_field doc_text) \<noteq> answer_of NoConfidentMatch"
proof -
  from assms have r: "ask_question tie score question_field doc_text = ComputationFailure empty_vocabulary"
    by (simp add: ask_question_not_blank try_body_scorer_raises)
  have "answer_of (ComputationFailure empty_vocabulary)
      = ustr ''Could not compute answer: empty vocabulary; perhaps the documents only contain stop words''"
    by (simp add: answer_of_def empty_vocabulary_def ustr_def)
  moreover have "answer_of (ComputationFailure empty_vocabulary) \<noteq> answer_of NoConfidentMatch"
    by (simp add: answer_of_def empty_vocabulary_def ustr_def)
  ultimately show ?thesis using r by simp
qed

theorem empty_vocabulary_is_a_failure_witness:
  "ask_question index_order (\<lambda>S q. Inl empty_vocabulary) (ustr ''the'') (ustr ''It is what it is.'')
     = ComputationFailure empty_vocabulary"
proof -
  have q: "strip (ustr ''the'') \<noteq> []" and d: "strip (ustr ''It is what it is.'') \<noteq> []"
    by (simp_all add: str_eval)
  from empty_vocabulary_is_a_failure [OF q d, of "\<lambda>S q. Inl empty_vocabulary" index_order]
  show ?thesis by simp
qed

text \<open>
  C4, as stated, fails: for the question \<^verbatim>\<open>the\<close> on the document \<^verbatim>\<open>It is what it is.\<close>, all
  of whose words are stop words, with the vectorizer raising for the empty vocabulary, the
  result is not \<open>NoConfidentMatch\<close> and its answer is not the one of \<open>NoConfidentMatch\<close>.
\<close>

theorem empty_vocabulary_not_no_confident_match:
  "ask_question index_order (\<lambda>S q. Inl empty_vocabulary) (ustr ''the'') (ustr ''It is what it is.'')
     \<noteq> NoConfidentMatch
   \<and> answer_of (ask_question index_order (\<lambda>S q. Inl empty_vocabulary) (ustr ''the'')
        (ustr ''It is what it is.'')) \<noteq> answer_of NoConfidentMatch"
  by (simp add: str_eval route_eval)

section \<open>The similarity scores of the specification\<close>

subsection \<open>Cosine of vectors with non-negative entries\<close>

lemma dot_nonneg:
  "\<forall>x\<in>set u. 0 \<le> x \<Longrightarrow> \<forall>y\<in>set v. 0 \<le> y \<Longrightarrow> 0 \<le> dot u v"
  unfolding dot_def
  by (rule sum_list_nonneg) (auto intro!: mult_nonneg_nonneg dest: set_zip_leftD set_zip_rightD)

lemma dot_self_nonneg: "0 \<le> dot u u"
  unfolding dot_def by (rule sum_list_nonneg) (auto simp: zip_same)

lemma dot_Cons: "dot (x # u) (y # v) = x * y + dot u v"
  by (simp add: dot_def)

lemma cauchy_schwarz_step:
  fixes x y d a b :: real
  assumes "d\<^sup>2 \<le> a * b" "0 \<le> a" "0 \<le> b"
  shows "(x * y + d)\<^sup>2 \<le> (x * x + a) * (y * y + b)"
proof -
  define P where "P = x * x * b"
  define Q where "Q = a * (y * y)"
  define m where "m = 2 * x * y * d"
  have P: "0 \<le> P" and Q: "0 \<le> Q"
    using assms(2,3) by (simp_all add: P_def Q_def)
  have "m\<^sup>2 = 4 * ((x * x) * (y * y)) * d\<^sup>2"
    by (simp add: m_def power2_eq_square)
  also have "\<dots> \<le> 4 * ((x * x) * (y * y)) * (a * b)"
    by (rule mult_left_mono [OF assms(1)]) simp
  also have "\<dots> = 4 * P * Q"
    by (simp add: P_def Q_def)
  finally have m4: "m\<^sup>2 \<le> 4 * P * Q" .
  have "(P + Q)\<^sup>2 = (P - Q)\<^sup>2 + 4 * P * Q"
    by (simp add: power2_eq_square algebra_simps)
  with zero_le_power2 [of "P - Q"] m4 have "m\<^sup>2 \<le> (P + Q)\<^sup>2"
    by linarith
  moreover from P Q have "0 \<le> P + Q"
    by simp
  ultimately have m: "m \<le> P + Q"
    by (rule power2_le_imp_le)
  have "(x * y + d)\<^sup>2 = x * x * (y * y) + m + d\<^sup>2"
    by (simp add: m_def power2_eq_square algebra_simps)
  moreover have "(x * x + a) * (y * y + b) = x * x * (y * y) + P + Q + a * b"
    by (simp add: P_def Q_def algebra_simps)
  ultimately show ?thesis
    using m assms(1) by linarith
qed

lemma cauchy_schwarz:
  "length u = length v \<Longrightarrow> (dot u v)\<^sup>2 \<le> dot u u * dot v v"
proof (induction u v rule: list_induct2)
  case Nil
  then show ?case by (simp add: dot_def)
next
  case (Cons x u y v)
  from cauchy_schwarz_step [OF Cons.IH dot_self_nonneg dot_self_nonneg, of x y]
  show ?case by (simp add: dot_Cons)
qed

lemma dot_le_norms:
  assumes "length u = length v"
  shows "dot u v \<le> euclidean_norm u * euclidean_norm v"
proof -
  have "dot u v \<le> sqrt (dot u u * dot v v)"
    by (rule real_le_rsqrt) (rule cauchy_schwarz [OF assms])
  then show ?thesis
    by (simp add: euclidean_norm_def real_sqrt_mult)
qed

lemma euclidean_norm_nonneg: "0 \<le> euclidean_norm u"
  by (simp add: euclidean_norm_def dot_self_nonneg)

lemma cosine_bounds:
  assumes "length u = length v" "\<forall>x\<in>set u. 0 \<le> x" "\<forall>y\<in>set v. 0 \<le> y"
  shows "0 \<le> cosine u v" and "cosine u v \<le> 1"
proof -
  show "0 \<le> cosine u v"
    using dot_nonneg [OF assms(2,3)] euclidean_norm_nonneg [of u] euclidean_norm_nonneg [of v]
    by (simp add: cosine_def)
  show "cosine u v \<le> 1"
  proof (cases "euclidean_norm u = 0 \<or> euclidean_norm v = 0")
    case True
    then show ?thesis by (simp add: cosine_def)
  next
    case False
    then have "0 < euclidean_norm u * euclidean_norm v"
      using euclidean_norm_nonneg [of u] euclidean_norm_nonneg [of v] by (simp add: less_le)
    with dot_le_norms [OF assms(1)] False show ?thesis
      by (simp add: cosine_def)
  qed
qed

lemma cosine_self: "cosine u u = (if euclidean_norm u = 0 then 0 else 1)"
  by (simp add: cosine_def euclidean_norm_def dot_self_nonneg)

lemma cosine_zero_norm: "euclidean_norm u = 0 \<Longrightarrow> cosine u v = 0"
  by (simp add: cosine_def)

subsection \<open>The vectors of the texts\<close>

lemma length_tfidf_vector: "length (tfidf_vector terms_of weight vocab text) = length vocab"
  by (simp add: tfidf_vector_def)

lemma tfidf_vector_nonneg:
  "\<forall>t. 0 \<le> weight t \<Longrightarrow> \<forall>x\<in>set (tfidf_vector terms_of weight vocab text). 0 \<le> x"
  by (auto simp: tfidf_vector_def)

lemma dot_map: "dot (map f vocab) (map g vocab) = (\<Sum>t\<leftarrow>vocab. f t * g t)"
  by (induction vocab) (simp_all add: dot_def)

lemma euclidean_norm_zero_iff:
  "euclidean_norm (map f vocab) = 0 \<longleftrightarrow> (\<forall>t\<in>set vocab. f t = 0)"
proof -
  have "(\<Sum>t\<leftarrow>vocab. f t * f t) = 0 \<longleftrightarrow> (\<forall>x\<in>set (map (\<lambda>t. f t * f t) vocab). x = 0)"
    by (rule sum_list_nonneg_eq_0_iff) auto
  then show ?thesis
    by (simp add: euclidean_norm_def dot_map)
qed

lemma tfidf_norm_zero_iff:
  "euclidean_norm (tfidf_vector terms_of weight vocab text) = 0 \<longleftrightarrow>
     (\<forall>t\<in>set vocab. t \<in> set (terms_of text) \<longrightarrow> weight t = 0)"
  by (auto simp: tfidf_vector_def euclidean_norm_zero_iff count_list_0_iff)

lemma tfidf_dot_disjoint:
  assumes "set (terms_of text) \<inter> set (terms_of text') = {}"
  shows "dot (tfidf_vector terms_of weight vocab text) (tfidf_vector terms_of weight vocab text') = 0"
proof -
  have z: "\<forall>t. count_list (terms_of text) t = 0 \<or> count_list (terms_of text') t = 0"
    using assms by (auto simp: count_list_0_iff)
  have p: "(\<lambda>t. real (count_list (terms_of text) t) * weight t *
      (real (count_list (terms_of text') t) * weight t)) = (\<lambda>t. 0)"
  proof (rule ext)
    fix t
    show "real (count_list (terms_of text) t) * weight t *
      (real (count_list (terms_of text') t) * weight t) = 0"
      using spec [OF z, of t] by auto
  qed
  show ?thesis
    unfolding tfidf_vector_def dot_map p by simp
qed

lemma spec_similarities_nth:
  "i < length sentences \<Longrightarrow>
   spec_similarities lower terms_of idf sentences question ! i =
     cosine
       (tfidf_vector terms_of (idf (corpus_of lower sentences question))
          (vocabulary terms_of (corpus_of lower sentences question)) (lower question))
       (tfidf_vector terms_of (idf (corpus_of lower sentences question))
          (vocabulary terms_of (corpus_of lower sentences question)) (lower (sentences ! i)))"
  by (simp add: spec_similarities_def Let_def)

lemma question_terms_in_vocabulary:
  "t \<in> set (terms_of (lower question)) \<Longrightarrow>
   t \<in> set (vocabulary terms_of (corpus_of lower sentences question))"
  by (auto simp: vocabulary_def corpus_of_def)

lemma smooth_idf_positive: "0 < smooth_idf terms_of corpus t"
proof -
  have "length (filter (\<lambda>d. t \<in> set (terms_of d)) corpus) \<le> length corpus"
    by (rule length_filter_le)
  then have "1 \<le> (1 + real (length corpus)) /
      (1 + real (length (filter (\<lambda>d. t \<in> set (terms_of d)) corpus)))"
    by (simp add: field_simps)
  then have "0 \<le> ln ((1 + real (length corpus)) /
      (1 + real (length (filter (\<lambda>d. t \<in> set (terms_of d)) corpus))))"
    by (rule ln_ge_zero)
  then show ?thesis
    unfolding smooth_idf_def by linarith
qed

text \<open>
  C8, as amended. In the vector space of the specification, with non-negative inverse
  document frequencies, every score lies in [0, 1]. A unit identical to the question
  ignoring case has the highest score of all units. That score is 1 when some term of the
  question has a positive weight, and 0 when none has (for example when every token of
  the question is a stop word). A unit that shares no term with the question has the
  score 0.
\<close>

theorem similarity_bounds:
  assumes "\<forall>corpus t. 0 \<le> idf corpus t" and "i < length sentences"
  shows "0 \<le> spec_similarities lower terms_of idf sentences question ! i
       \<and> spec_similarities lower terms_of idf sentences question ! i \<le> 1
       \<and> (lower (sentences ! i) = lower question \<longrightarrow>
            (\<forall>j<length sentences.
               spec_similarities lower terms_of idf sentences question ! j
                 \<le> spec_similarities lower terms_of idf sentences question ! i))
       \<and> (lower (sentences ! i) = lower question
            \<and> (\<exists>t\<in>set (terms_of (lower question)).
                  0 < idf (corpus_of lower sentences question) t) \<longrightarrow>
            spec_similarities lower terms_of idf sentences question ! i = 1)
       \<and> (lower (sentences ! i) = lower question
            \<and> (\<forall>t\<in>set (terms_of (lower question)).
                  idf (corpus_of lower sentences question) t = 0) \<longrightarrow>
            spec_similarities lower terms_of idf sentences question ! i = 0)
       \<and> (set (terms_of (lower (sentences ! i))) \<inter> set (terms_of (lower question)) = {} \<longrightarrow>
            spec_similarities lower terms_of idf sentences question ! i = 0)"
proof -
  let ?corpus = "corpus_of lower sentences question"
  let ?vec = "tfidf_vector terms_of (idf ?corpus) (vocabulary terms_of ?corpus)"
  let ?q = "?vec (lower question)"
  let ?sims = "spec_similarities lower terms_of idf sentences question"
  have nn: "\<forall>x\<in>set (?vec d). 0 \<le> x" for d
    using assms(1) by (intro tfidf_vector_nonneg) simp
  have len: "length ?q = length (?vec d)" for d
    by (simp add: length_tfidf_vector)
  have sim: "?sims ! j = cosine ?q (?vec (lower (sentences ! j)))" if "j < length sentences" for j
    using that by (rule spec_similarities_nth)
  have bounds: "0 \<le> ?sims ! j \<and> ?sims ! j \<le> 1" if "j < length sentences" for j
    using cosine_bounds [OF len nn nn, of "lower (sentences ! j)"] sim [OF that] by simp
  have same: "?sims ! i = (if euclidean_norm ?q = 0 then 0 else 1)"
    if "lower (sentences ! i) = lower question"
    using sim [OF assms(2)] that by (simp add: cosine_self)
  have c1: "\<forall>j<length sentences. ?sims ! j \<le> ?sims ! i"
    if "lower (sentences ! i) = lower question"
  proof (cases "euclidean_norm ?q = 0")
    case True
    have "?sims ! j = 0" if "j < length sentences" for j
      using sim [OF that] True by (simp add: cosine_zero_norm)
    then have "\<forall>j<length sentences. ?sims ! j = 0"
      by blast
    then show ?thesis
      using assms(2) by simp
  next
    case False
    with same [OF that] bounds show ?thesis by simp
  qed
  have c2: "?sims ! i = 1"
    if "lower (sentences ! i) = lower question"
       "\<exists>t\<in>set (terms_of (lower question)). 0 < idf ?corpus t"
  proof -
    from that(2) obtain t where "t \<in> set (terms_of (lower question))" "0 < idf ?corpus t"
      by blast
    then have "euclidean_norm ?q \<noteq> 0"
      using question_terms_in_vocabulary [of t terms_of lower question sentences]
      by (auto simp: tfidf_norm_zero_iff)
    with same [OF that(1)] show ?thesis by simp
  qed
  have c3: "?sims ! i = 0"
    if "lower (sentences ! i) = lower question"
       "\<forall>t\<in>set (terms_of (lower question)). idf ?corpus t = 0"
  proof -
    from that(2) have "euclidean_norm ?q = 0"
      by (simp add: tfidf_norm_zero_iff)
    with same [OF that(1)] show ?thesis by simp
  qed
  have c4: "?sims ! i = 0"
    if "set (terms_of (lower (sentences ! i))) \<inter> set (terms_of (lower question)) = {}"
  proof -
    from that have "set (terms_of (lower question)) \<inter> set (terms_of (lower (sentences ! i))) = {}"
      by blast
    then have "dot ?q (?vec (lower (sentences ! i))) = 0"
      by (rule tfidf_dot_disjoint)
    then show ?thesis
      using sim [OF assms(2)] by (simp add: cosine_def)
  qed
  from bounds [OF assms(2)] c1 c2 c3 c4 show ?thesis by blast
qed

theorem similarity_bounds_witness:
  "spec_similarities ascii_lower (word_terms []) (smooth_idf (word_terms []))
     [ustr ''Cats purr'', ustr ''Dogs bark''] (ustr ''cats PURR'') ! 0 = 1
   \<and> spec_similarities ascii_lower (word_terms []) (smooth_idf (word_terms []))
     [ustr ''Cats purr'', ustr ''Dogs bark''] (ustr ''cats PURR'') ! 1 = 0"
proof -
  let ?S = "[ustr ''Cats purr'', ustr ''Dogs bark'']" and ?q = "ustr ''cats PURR''"
  have nn: "\<forall>corpus t. 0 \<le> smooth_idf (word_terms []) corpus t"
    using smooth_idf_positive [of "word_terms []"] by (simp add: less_imp_le)
  have i0: "0 < length ?S" and i1: "1 < length ?S"
    by simp_all
  have same: "ascii_lower (?S ! 0) = ascii_lower ?q"
    by (simp add: ascii_lower_def ustr_def)
  have "word_terms [] (ascii_lower ?q) = [[ustr ''cats''], [ustr ''purr''], [ustr ''cats'', ustr ''purr'']]"
    by (simp add: word_terms_def ascii_lower_def ustr_def is_space_def)
  then have "[ustr ''cats''] \<in> set (word_terms [] (ascii_lower ?q))"
    by simp
  then have pos: "\<exists>t\<in>set (word_terms [] (ascii_lower ?q)).
      0 < smooth_idf (word_terms []) (corpus_of ascii_lower ?S ?q) t"
    using smooth_idf_positive [of "word_terms []" "corpus_of ascii_lower ?S ?q"] by blast
  have dis: "set (word_terms [] (ascii_lower (?S ! 1))) \<inter> set (word_terms [] (ascii_lower ?q)) = {}"
    by (simp add: word_terms_def ascii_lower_def ustr_def is_space_def)
  from similarity_bounds [OF nn i0, where lower = ascii_lower and question = ?q] same pos
  have "spec_similarities ascii_lower (word_terms []) (smooth_idf (word_terms [])) ?S ?q ! 0 = 1"
    by blast
  moreover from similarity_bounds [OF nn i1, where lower = ascii_lower and question = ?q] dis
  have "spec_similarities ascii_lower (word_terms []) (smooth_idf (word_terms [])) ?S ?q ! 1 = 0"
    by blast
  ultimately show ?thesis by blast
qed

text \<open>
  C8, as stated, fails: for the units \<^verbatim>\<open>Is it\<close> and \<^verbatim>\<open>Cats purr\<close> and the question \<^verbatim>\<open>is it\<close>,
  with \<^verbatim>\<open>is\<close> and \<^verbatim>\<open>it\<close> stop words, the first unit is the question ignoring case and the
  second shares no term with the question, and both have the score 0: the score of the
  identical unit is not strictly greater.
\<close>

theorem identical_unit_of_stop_words_scores_zero:
  "ascii_lower (ustr ''Is it'') = ascii_lower (ustr ''is it'')
   \<and> set (word_terms [ustr ''is'', ustr ''it''] (ascii_lower (ustr ''Cats purr'')))
       \<inter> set (word_terms [ustr ''is'', ustr ''it''] (ascii_lower (ustr ''is it''))) = {}
   \<and> spec_similarities ascii_lower (word_terms [ustr ''is'', ustr ''it''])
         (smooth_idf (word_terms [ustr ''is'', ustr ''it'']))
         [ustr ''Is it'', ustr ''Cats purr''] (ustr ''is it'') = [0, 0]"
  by (simp add: spec_eval ustr_def is_space_def)

end
